theory Spec2Isabelle
  imports Main
begin

section \<open>Events and queue items (src/types)\<close>

text \<open>
  \<^verbatim>\<open>AnalyticsEvent\<close> is a union of six interfaces told apart by their \<^verbatim>\<open>type\<close> field.
  All of them carry \<^verbatim>\<open>timestamp\<close> and \<^verbatim>\<open>messageId\<close>; the remaining, kind-specific
  fields (event name, properties, traits, context, ...) are never inspected by the queue
  or by the plugin loop and are kept as one list of key/value pairs.
\<close>

datatype event_type = Identify | Track | Page | Screen | Alias | Group

record AnalyticsEvent =
  etype :: event_type
  userId :: "string option"
  anonymousId :: "string option"
  ev_timestamp :: string
  messageId :: string
  payload :: "(string \<times> string) list"

text \<open>\<^verbatim>\<open>QueueItem { event; attempts: number; timestamp: number }\<close>. The counter starts at
  0 and is only ever incremented, so it is a natural number.\<close>

record QueueItem =
  event :: AnalyticsEvent
  attempts :: nat
  timestamp :: nat

section \<open>The delivery queue (src/core/queue.ts)\<close>

text \<open>
  \<^verbatim>\<open>QueueConfig\<close>. The numeric fields are JavaScript numbers supplied by the caller; they
  are integers here, negative values included. \<^verbatim>\<open>customFetch\<close> is the transport: its
  answer is not computed by the queue, it arrives from outside as the outcome of a
  settlement step (see \<open>flush_settled\<close>).
\<close>

record QueueConfig =
  flushAt :: int
  flushInterval :: int
  maxQueueSize :: int
  retryAttempts :: int
  apiHost :: string
  writeKey :: string
  debug :: bool

text \<open>What the queue writes to the console (only when \<^verbatim>\<open>config.debug\<close> is set).\<close>

datatype console_line =
    EventQueued AnalyticsEvent
  | QueueSizeExceeded
  | BatchSent nat
  | BatchFailed
  | DroppingEvent AnalyticsEvent

text \<open>
  The fields of the class: \<^verbatim>\<open>queue\<close>, \<^verbatim>\<open>flushTimer\<close> (here: whether a timer handle is
  held) and \<^verbatim>\<open>isFlushing\<close>. Three more components make the effects of the class
  observable:
  \<^item> \<open>inflight\<close>: the local \<^verbatim>\<open>batch\<close> of a \<^verbatim>\<open>flush()\<close> that is suspended at
    \<^verbatim>\<open>await this.sendBatch(batch)\<close>;
  \<^item> \<open>sent\<close>: one entry per call of \<^verbatim>\<open>sendBatch\<close> (one transport call), holding the
    events of that call, oldest call first;
  \<^item> \<open>console\<close>: the debug lines printed so far.
\<close>

record Queue =
  queue :: "QueueItem list"
  flushTimer :: bool
  isFlushing :: bool
  inflight :: "QueueItem list option"
  sent :: "AnalyticsEvent list list"
  console :: "console_line list"

text \<open>The constructor: empty queue, not flushing, \<^verbatim>\<open>startFlushInterval()\<close> arms the timer.\<close>

definition new_Queue :: Queue where
  "new_Queue =
     \<lparr>queue = [], flushTimer = True, isFlushing = False, inflight = None, sent = [],
      console = []\<rparr>"

definition debug_log :: "QueueConfig \<Rightarrow> console_line \<Rightarrow> Queue \<Rightarrow> Queue" where
  "debug_log cfg l s = (if debug cfg then s\<lparr>console := console s @ [l]\<rparr> else s)"

text \<open>
  \<^verbatim>\<open>flush()\<close> is an async function. Everything up to the \<^verbatim>\<open>await\<close> runs synchronously
  inside the call: the guard, setting \<^verbatim>\<open>isFlushing\<close>, the snapshot of the queue into
  \<^verbatim>\<open>batch\<close>, emptying the queue and the call of \<^verbatim>\<open>sendBatch(batch)\<close>. This is \<open>flush\<close>.
\<close>

definition flush :: "QueueConfig \<Rightarrow> Queue \<Rightarrow> Queue" where
  "flush cfg s =
     (if isFlushing s \<or> length (queue s) = 0 then s
      else s\<lparr>isFlushing := True,
             inflight := Some (queue s),
             queue := [],
             sent := sent s @ [map event (queue s)]\<rparr>)"

text \<open>
  The \<^verbatim>\<open>for (const item of batch)\<close> loop of the \<^verbatim>\<open>catch\<close> block: \<^verbatim>\<open>item.attempts++\<close>,
  then the item goes back to the tail of the live queue when
  \<^verbatim>\<open>item.attempts < retryAttempts\<close>, and is dropped (with a debug line) otherwise.
\<close>

fun retry_loop :: "QueueConfig \<Rightarrow> QueueItem list \<Rightarrow> Queue \<Rightarrow> Queue" where
  "retry_loop cfg [] s = s"
| "retry_loop cfg (item # rest) s =
     (let item' = item\<lparr>attempts := attempts item + 1\<rparr> in
      retry_loop cfg rest
        (if int (attempts item') < retryAttempts cfg
         then s\<lparr>queue := queue s @ [item']\<rparr>
         else debug_log cfg (DroppingEvent (event item')) s))"

text \<open>
  The rest of \<^verbatim>\<open>flush()\<close>, run when the promise of \<^verbatim>\<open>sendBatch\<close> settles: \<open>ok\<close> tells
  whether it resolved (\<^verbatim>\<open>try\<close> continues) or rejected (\<^verbatim>\<open>catch\<close>); \<^verbatim>\<open>finally\<close> resets
  the flag in both cases. Without a suspended \<^verbatim>\<open>flush()\<close> there is nothing to resume.
\<close>

definition flush_settled :: "QueueConfig \<Rightarrow> bool \<Rightarrow> Queue \<Rightarrow> Queue" where
  "flush_settled cfg ok s =
     (case inflight s of
        None \<Rightarrow> s
      | Some batch \<Rightarrow>
          (let s1 = s\<lparr>inflight := None\<rparr>;
               s2 = (if ok then debug_log cfg (BatchSent (length batch)) s1
                     else retry_loop cfg batch (debug_log cfg BatchFailed s1))
           in s2\<lparr>isFlushing := False\<rparr>))"

text \<open>\<^verbatim>\<open>push(event)\<close>; \<open>now\<close> is the value of \<^verbatim>\<open>Date.now()\<close>. \<^verbatim>\<open>shift()\<close> removes the
  first element and does nothing on an empty array.\<close>

definition push :: "QueueConfig \<Rightarrow> AnalyticsEvent \<Rightarrow> nat \<Rightarrow> Queue \<Rightarrow> Queue" where
  "push cfg ev now s =
     (let item = \<lparr>event = ev, attempts = 0, timestamp = now\<rparr>;
          s1 = s\<lparr>queue := queue s @ [item]\<rparr>;
          s2 = debug_log cfg (EventQueued ev) s1;
          s3 = (if flushAt cfg \<le> int (length (queue s2)) then flush cfg s2 else s2)
      in if maxQueueSize cfg < int (length (queue s3))
         then debug_log cfg QueueSizeExceeded (s3\<lparr>queue := tl (queue s3)\<rparr>)
         else s3)"

definition stopFlushInterval :: "Queue \<Rightarrow> Queue" where
  "stopFlushInterval s = (if flushTimer s then s\<lparr>flushTimer := False\<rparr> else s)"

definition queue_size :: "Queue \<Rightarrow> nat" where
  "queue_size s = length (queue s)"

definition clear :: "Queue \<Rightarrow> Queue" where
  "clear s = s\<lparr>queue := []\<rparr>"

text \<open>\<^verbatim>\<open>destroy()\<close> is synchronous and returns \<^verbatim>\<open>void\<close>: it calls \<^verbatim>\<open>this.flush()\<close> without
  awaiting the promise, then \<^verbatim>\<open>this.clear()\<close>.\<close>

definition destroy :: "QueueConfig \<Rightarrow> Queue \<Rightarrow> Queue" where
  "destroy cfg s = clear (flush cfg (stopFlushInterval s))"

text \<open>The callback of \<^verbatim>\<open>setInterval\<close> calls \<^verbatim>\<open>this.flush()\<close>; it fires only while the
  timer is armed.\<close>

definition timer_fires :: "QueueConfig \<Rightarrow> Queue \<Rightarrow> Queue" where
  "timer_fires cfg s = (if flushTimer s then flush cfg s else s)"

text \<open>\<^verbatim>\<open>await queue.flush()\<close> with nothing else running in between: a call that passes
  the guard is resumed by its own settlement; a call that returns at the guard resolves
  at once.\<close>

definition flush_await :: "QueueConfig \<Rightarrow> bool \<Rightarrow> Queue \<Rightarrow> Queue" where
  "flush_await cfg ok s =
     (if isFlushing s \<or> length (queue s) = 0 then s
      else flush_settled cfg ok (flush cfg s))"

subsection \<open>Interleavings\<close>

text \<open>
  JavaScript runs one task at a time, so a run of the queue is a sequence of atomic
  steps: calls of the public methods, a firing timer, and the settlement of the
  transport call that is in flight (\<open>Settle True\<close>: resolved, \<open>Settle False\<close>: rejected
  or not ok).
\<close>

datatype action =
    Push AnalyticsEvent nat
  | Flush
  | TimerFires
  | Settle bool
  | Clear
  | StopFlushInterval
  | Destroy

fun step :: "QueueConfig \<Rightarrow> action \<Rightarrow> Queue \<Rightarrow> Queue" where
  "step cfg (Push ev now) s = push cfg ev now s"
| "step cfg Flush s = flush cfg s"
| "step cfg TimerFires s = timer_fires cfg s"
| "step cfg (Settle ok) s = flush_settled cfg ok s"
| "step cfg Clear s = clear s"
| "step cfg StopFlushInterval s = stopFlushInterval s"
| "step cfg Destroy s = destroy cfg s"

fun run :: "QueueConfig \<Rightarrow> action list \<Rightarrow> Queue \<Rightarrow> Queue" where
  "run cfg [] s = s"
| "run cfg (a # as) s = run cfg as (step cfg a s)"

fun is_settle :: "action \<Rightarrow> bool" where
  "is_settle (Settle ok) = True"
| "is_settle a = False"

subsection \<open>Fixtures of the queue's test suite\<close>

text \<open>\<^verbatim>\<open>createTrackEvent(name)\<close> and \<^verbatim>\<open>defaultConfig\<close> of the Jest suite that follows the
  class in src/core/queue.ts, used for the concrete runs below.\<close>

definition createTrackEvent :: "string \<Rightarrow> AnalyticsEvent" where
  "createTrackEvent n =
     \<lparr>etype = Track, userId = None, anonymousId = Some ''anon-123'',
      ev_timestamp = ''2024-01-15T10:00:00.000Z'', messageId = ''msg-'' @ n,
      payload = [(''event'', n)]\<rparr>"

definition defaultConfig :: QueueConfig where
  "defaultConfig =
     \<lparr>flushAt = 5, flushInterval = 10000, maxQueueSize = 10, retryAttempts = 3,
      apiHost = ''https://api.test.com'', writeKey = ''test-write-key'', debug = False\<rparr>"

text \<open>One \<^verbatim>\<open>push\<close> on a fresh queue followed by four awaited \<^verbatim>\<open>flush()\<close> calls, the
  transport rejecting every call.\<close>

definition fourFlushes :: "QueueConfig \<Rightarrow> AnalyticsEvent \<Rightarrow> nat \<Rightarrow> Queue" where
  "fourFlushes cfg ev now =
     flush_await cfg False (flush_await cfg False (flush_await cfg False (flush_await cfg False
       (push cfg ev now new_Queue))))"

text \<open>A queue holding two unsent events.\<close>

definition twoUnsent :: Queue where
  "twoUnsent =
     run defaultConfig
       [Push (createTrackEvent ''Event 0'') 0, Push (createTrackEvent ''Event 1'') 1]
       new_Queue"

section \<open>The plugin pipeline (src/core/analytics.ts)\<close>

text \<open>
  \<^verbatim>\<open>Plugin\<close>: a name, a stage tag and up to six handlers, one per event kind
  (\<^verbatim>\<open>plugin[event.type]\<close>; \<open>None\<close> when the property is not a function). A handler is an
  async function: awaited, it yields an event or \<^verbatim>\<open>null\<close>, or it throws/rejects.
  \<open>load\<close> is the outcome of awaiting \<^verbatim>\<open>plugin.load(this)\<close>.
\<close>

datatype plugin_type = Before | Enrichment | Destination | After

datatype handler_result = Returns "AnalyticsEvent option" | Throws string

datatype load_result = Resolves | Rejects string

record Plugin =
  name :: string
  ptype :: plugin_type
  load :: load_result
  handler :: "event_type \<Rightarrow> (AnalyticsEvent \<Rightarrow> handler_result) option"

text \<open>\<^verbatim>\<open>const typeOrder = { before: 0, enrichment: 1, destination: 2, after: 3 }\<close>\<close>

fun typeOrder :: "plugin_type \<Rightarrow> int" where
  "typeOrder Before = 0"
| "typeOrder Enrichment = 1"
| "typeOrder Destination = 2"
| "typeOrder After = 3"

text \<open>
  \<^verbatim>\<open>AnalyticsConfig\<close> with its optional fields, and the queue configuration the
  constructor derives from \<^verbatim>\<open>{ ...DEFAULT_CONFIG, ...config }\<close>.
\<close>

record AnalyticsConfig =
  config_writeKey :: string
  config_apiHost :: "string option"
  config_flushAt :: "int option"
  config_flushInterval :: "int option"
  config_maxQueueSize :: "int option"
  config_retryAttempts :: "int option"
  config_debug :: "bool option"
  config_plugins :: "Plugin list option"

definition or_default :: "'a option \<Rightarrow> 'a \<Rightarrow> 'a" where
  "or_default v d = (case v of None \<Rightarrow> d | Some x \<Rightarrow> x)"

definition queueConfig :: "AnalyticsConfig \<Rightarrow> QueueConfig" where
  "queueConfig config =
     \<lparr>flushAt = or_default (config_flushAt config) 20,
      flushInterval = or_default (config_flushInterval config) 10000,
      maxQueueSize = or_default (config_maxQueueSize config) 100,
      retryAttempts = or_default (config_retryAttempts config) 3,
      apiHost = or_default (config_apiHost config) ''https://api.stickyqr.com/analytics'',
      writeKey = config_writeKey config,
      debug = or_default (config_debug config) False\<rparr>"

text \<open>
  \<^verbatim>\<open>Map<string, Plugin>\<close> iterates in insertion order, and \<^verbatim>\<open>set\<close> on a key that is
  present replaces the value where the key already stands: an association list.
\<close>

fun map_set :: "'k \<Rightarrow> 'v \<Rightarrow> ('k \<times> 'v) list \<Rightarrow> ('k \<times> 'v) list" where
  "map_set k v [] = [(k, v)]"
| "map_set k v ((k', v') # m) =
     (if k' = k then (k, v) # m else (k', v') # map_set k v m)"

definition map_values :: "('k \<times> 'v) list \<Rightarrow> 'v list" where
  "map_values m = map snd m"

text \<open>What the pipeline does that can be seen from outside: a handler call (plugin name,
  argument, outcome) and a \<^verbatim>\<open>console.error\<close> line of the \<^verbatim>\<open>catch\<close> block.\<close>

datatype pipeline_event =
    Invoked string AnalyticsEvent handler_result
  | PluginError string string

datatype load_line = PluginLoaded string | FailedToLoad string string

text \<open>
  The fields \<^verbatim>\<open>plugins\<close>, \<^verbatim>\<open>isReady\<close> and \<^verbatim>\<open>queue\<close> (here \<open>equeue\<close>) of the class, and
  what it does to the outside:
  \<^item> \<open>trace\<close>: handler calls and error lines of \<^verbatim>\<open>processEvent\<close>, in order;
  \<^item> \<open>load_console\<close>: the lines \<^verbatim>\<open>loadPlugins\<close> prints;
  \<^item> \<open>pushed\<close>: the arguments of the calls of \<^verbatim>\<open>this.queue.push\<close>, in order;
  \<^item> \<open>floating\<close>: the plugins whose \<^verbatim>\<open>load()\<close> promise was created and then left alone
    (neither awaited nor given a rejection handler).
\<close>

record Analytics =
  plugins :: "(string \<times> Plugin) list"
  isReady :: bool
  equeue :: Queue
  trace :: "pipeline_event list"
  load_console :: "load_line list"
  pushed :: "AnalyticsEvent list"
  floating :: "string list"

definition init_Analytics :: Analytics where
  "init_Analytics =
     \<lparr>plugins = [], isReady = False, equeue = new_Queue, trace = [], load_console = [],
      pushed = [], floating = []\<rparr>"

text \<open>
  The loop of \<^verbatim>\<open>loadPlugins\<close>: \<^verbatim>\<open>await plugin.load(this)\<close>; when it resolves the plugin
  enters the map, when it rejects the \<^verbatim>\<open>catch\<close> block prints a line and the loop goes
  on with the next plugin.
\<close>

fun load_loop :: "bool \<Rightarrow> Plugin list \<Rightarrow> Analytics \<Rightarrow> Analytics" where
  "load_loop dbg [] s = s"
| "load_loop dbg (plugin # rest) s =
     load_loop dbg rest
       (case load plugin of
          Resolves \<Rightarrow>
            (let s1 = s\<lparr>plugins := map_set (name plugin) plugin (plugins s)\<rparr> in
             if dbg then s1\<lparr>load_console := load_console s1 @ [PluginLoaded (name plugin)]\<rparr>
             else s1)
        | Rejects err \<Rightarrow>
            s\<lparr>load_console := load_console s @ [FailedToLoad (name plugin) err]\<rparr>)"

text \<open>
  \<^verbatim>\<open>plugins.sort((a, b) => typeOrder[a.type] - typeOrder[b.type])\<close>:
  \<^verbatim>\<open>Array.prototype.sort\<close> is a stable sort (ECMAScript 2019), as is \<^const>\<open>sort_key\<close>.
\<close>

definition sortedPlugins :: "Plugin list \<Rightarrow> Plugin list" where
  "sortedPlugins ps = sort_key (\<lambda>p. typeOrder (ptype p)) ps"

definition loadPlugins :: "AnalyticsConfig \<Rightarrow> Analytics \<Rightarrow> Analytics" where
  "loadPlugins config s =
     (load_loop (or_default (config_debug config) False)
        (sortedPlugins (or_default (config_plugins config) [])) s)
     \<lparr>isReady := True\<rparr>"

text \<open>
  The loop of \<^verbatim>\<open>processEvent\<close> over \<^verbatim>\<open>this.plugins.values()\<close>; \<open>t\<close> is \<^verbatim>\<open>event.type\<close> of
  the event the method was called with, \<open>cur\<close> is \<^verbatim>\<open>processedEvent\<close>. The result is the
  final \<^verbatim>\<open>processedEvent\<close> and what happened on the way.
\<close>

fun process_loop ::
  "Plugin list \<Rightarrow> event_type \<Rightarrow> AnalyticsEvent option
     \<Rightarrow> AnalyticsEvent option \<times> pipeline_event list" where
  "process_loop [] t cur = (cur, [])"
| "process_loop (plugin # rest) t cur =
     (case cur of
        None \<Rightarrow> (None, [])
      | Some e \<Rightarrow>
          (case handler plugin t of
             None \<Rightarrow> process_loop rest t cur
           | Some h \<Rightarrow>
               (case h e of
                  Returns r \<Rightarrow>
                    (let (res, tr) = process_loop rest t r
                     in (res, Invoked (name plugin) e (Returns r) # tr))
                | Throws err \<Rightarrow>
                    (let (res, tr) = process_loop rest t cur
                     in (res, Invoked (name plugin) e (Throws err)
                              # PluginError (name plugin) err # tr)))))"

definition processEvent ::
  "Analytics \<Rightarrow> AnalyticsEvent \<Rightarrow> AnalyticsEvent option \<times> pipeline_event list" where
  "processEvent s ev = process_loop (map_values (plugins s)) (etype ev) (Some ev)"

text \<open>
  The two statements that end \<^verbatim>\<open>identify\<close>, \<^verbatim>\<open>track\<close>, \<^verbatim>\<open>page\<close>, \<^verbatim>\<open>screen\<close>, \<^verbatim>\<open>alias\<close> and
  \<^verbatim>\<open>group\<close> alike:
  \<^verbatim>\<open>const processedEvent = await this.processEvent(event);
  if (processedEvent) { this.queue.push(processedEvent); }\<close>
\<close>

definition process_and_push ::
  "AnalyticsConfig \<Rightarrow> AnalyticsEvent \<Rightarrow> nat \<Rightarrow> Analytics \<Rightarrow> Analytics" where
  "process_and_push config ev now s =
     (let (processedEvent, tr) = processEvent s ev;
          s1 = s\<lparr>trace := trace s @ tr\<rparr>
      in case processedEvent of
           None \<Rightarrow> s1
         | Some e \<Rightarrow>
             s1\<lparr>equeue := push (queueConfig config) e now (equeue s1),
                pushed := pushed s1 @ [e]\<rparr>)"

text \<open>\<^verbatim>\<open>track\<close>: \<open>base\<close> carries the event name, the properties and what
  \<^verbatim>\<open>buildBaseEvent\<close> returned; the method sets \<^verbatim>\<open>type: 'track'\<close>.\<close>

definition track :: "AnalyticsConfig \<Rightarrow> AnalyticsEvent \<Rightarrow> nat \<Rightarrow> Analytics \<Rightarrow> Analytics" where
  "track config base now s = process_and_push config (base\<lparr>etype := Track\<rparr>) now s"

text \<open>\<^verbatim>\<open>register(plugin)\<close>: \<^verbatim>\<open>this.plugins.set(plugin.name, plugin); plugin.load(this);\<close>.
  The promise returned by \<^verbatim>\<open>load\<close> is dropped, so its outcome is never looked at.\<close>

definition register :: "Plugin \<Rightarrow> Analytics \<Rightarrow> Analytics" where
  "register plugin s =
     s\<lparr>plugins := map_set (name plugin) plugin (plugins s),
       floating := floating s @ [name plugin]\<rparr>"

text \<open>The names of the plugins whose handler was called, in call order.\<close>

fun invoked :: "pipeline_event list \<Rightarrow> string list" where
  "invoked [] = []"
| "invoked (Invoked n e r # tr) = n # invoked tr"
| "invoked (PluginError n err # tr) = invoked tr"

subsection \<open>Fixtures for the pipeline\<close>

text \<open>Plugins that implement \<^verbatim>\<open>track\<close> only, in the style of the mock plugins of the
  Jest suite: one that adds a property, one that returns \<^verbatim>\<open>null\<close>, one that throws; and a
  configuration that lists plugins.\<close>

definition trackPlugin ::
  "string \<Rightarrow> plugin_type \<Rightarrow> load_result \<Rightarrow> (AnalyticsEvent \<Rightarrow> handler_result) \<Rightarrow> Plugin" where
  "trackPlugin n ty l h =
     \<lparr>name = n, ptype = ty, load = l,
      handler = (\<lambda>t. if t = Track then Some h else None)\<rparr>"

definition enrich :: "string \<Rightarrow> AnalyticsEvent \<Rightarrow> handler_result" where
  "enrich n e = Returns (Some (e\<lparr>payload := payload e @ [(n, ''true'')]\<rparr>))"

definition veto :: "AnalyticsEvent \<Rightarrow> handler_result" where
  "veto e = Returns None"

definition failing :: "AnalyticsEvent \<Rightarrow> handler_result" where
  "failing e = Throws ''Plugin failure''"

definition configWith :: "Plugin list \<Rightarrow> AnalyticsConfig" where
  "configWith ps =
     \<lparr>config_writeKey = ''test-write-key'', config_apiHost = None, config_flushAt = None,
      config_flushInterval = None, config_maxQueueSize = None, config_retryAttempts = None,
      config_debug = Some False, config_plugins = Some ps\<rparr>"

definition withPlugins :: "Plugin list \<Rightarrow> Analytics" where
  "withPlugins ps = loadPlugins (configWith ps) init_Analytics"


section \<open>Properties of the delivery queue\<close>

subsection \<open>What each operation leaves alone\<close>

lemma debug_log_frame [simp]:
  "queue (debug_log cfg l s) = queue s"
  "isFlushing (debug_log cfg l s) = isFlushing s"
  "inflight (debug_log cfg l s) = inflight s"
  "sent (debug_log cfg l s) = sent s"
  "flushTimer (debug_log cfg l s) = flushTimer s"
  by (simp_all add: debug_log_def)

lemma retry_loop_queue:
  "queue (retry_loop cfg batch s) =
     queue s @ filter (\<lambda>i. int (attempts i) < retryAttempts cfg)
                 (map (\<lambda>i. i\<lparr>attempts := attempts i + 1\<rparr>) batch)"
  by (induction batch arbitrary: s) (simp_all add: Let_def)

lemma retry_loop_frame [simp]:
  "isFlushing (retry_loop cfg batch s) = isFlushing s"
  "inflight (retry_loop cfg batch s) = inflight s"
  "sent (retry_loop cfg batch s) = sent s"
  "flushTimer (retry_loop cfg batch s) = flushTimer s"
  by (induction batch arbitrary: s) (simp_all add: Let_def)

lemma flush_settled_queue:
  "queue (flush_settled cfg ok s) =
     (case inflight s of
        None \<Rightarrow> queue s
      | Some batch \<Rightarrow>
          if ok then queue s
          else queue s @ filter (\<lambda>i. int (attempts i) < retryAttempts cfg)
                           (map (\<lambda>i. i\<lparr>attempts := attempts i + 1\<rparr>) batch))"
  by (simp add: flush_settled_def Let_def retry_loop_queue split: option.splits)

lemma flush_settled_frame [simp]:
  "sent (flush_settled cfg ok s) = sent s"
  "flushTimer (flush_settled cfg ok s) = flushTimer s"
  "inflight (flush_settled cfg ok s) = None"
  by (simp_all add: flush_settled_def Let_def split: option.splits)

lemma flush_settled_isFlushing:
  "isFlushing (flush_settled cfg ok s) = (inflight s = None \<and> isFlushing s)"
  by (simp add: flush_settled_def Let_def split: option.splits)

lemma flush_frame [simp]: "flushTimer (flush cfg s) = flushTimer s"
  by (simp add: flush_def)

lemma destroy_fields:
  "flushTimer (destroy cfg s) = False"
  "queue (destroy cfg s) = []"
  "sent (destroy cfg s) =
     (if isFlushing s \<or> queue s = [] then sent s else sent s @ [map event (queue s)])"
  "inflight (destroy cfg s) =
     (if isFlushing s \<or> queue s = [] then inflight s else Some (queue s))"
  "isFlushing (destroy cfg s) = (isFlushing s \<or> queue s \<noteq> [])"
  by (auto simp: destroy_def clear_def flush_def stopFlushInterval_def)

lemmas queue_ops =
  push_def flush_def flush_settled_def flush_await_def debug_log_def new_Queue_def
  clear_def destroy_def stopFlushInterval_def timer_fires_def queue_size_def Let_def

subsection \<open>The bound on the queue length\<close>

lemma push_bound:
  assumes "0 \<le> maxQueueSize cfg" "int (length (queue s)) \<le> maxQueueSize cfg"
  shows "int (length (queue (push cfg ev now s))) \<le> maxQueueSize cfg"
  using assms by (auto simp: push_def Let_def flush_def)

lemma step_bound:
  assumes "0 \<le> maxQueueSize cfg" "int (length (queue s)) \<le> maxQueueSize cfg"
    and "a \<noteq> Settle False"
  shows "int (length (queue (step cfg a s))) \<le> maxQueueSize cfg"
proof (cases a)
  case (Push ev now)
  then show ?thesis using assms push_bound by simp
next
  case (Settle ok)
  with assms have ok by simp
  then show ?thesis
    using assms Settle by (simp add: flush_settled_queue split: option.splits)
qed (use assms in \<open>auto simp: flush_def timer_fires_def clear_def stopFlushInterval_def
       destroy_def\<close>)

lemma run_bound:
  assumes "0 \<le> maxQueueSize cfg" "int (length (queue s)) \<le> maxQueueSize cfg"
    and "Settle False \<notin> set acts"
  shows "int (length (queue (run cfg acts s))) \<le> maxQueueSize cfg"
  using assms
proof (induction acts arbitrary: s)
  case Nil
  then show ?case by simp
next
  case (Cons a acts)
  then show ?case using step_bound[of cfg s a] by auto
qed

text \<open>
  C1. Take any run of a fresh queue in which no failed send has settled (pushes,
  explicit flushes, timer firings, successful settlements, clear, destroy in any order),
  with a non-negative \<^verbatim>\<open>maxQueueSize\<close>. The length is within \<^verbatim>\<open>maxQueueSize\<close> before and
  after a further \<^verbatim>\<open>push\<close>. The queue that \<^verbatim>\<open>push\<close> leaves is the queue as it stands after
  the flush-threshold check (\<open>s3\<close>) with exactly the excess over \<^verbatim>\<open>maxQueueSize\<close> removed
  from the head; the batch handed to the transport and the in-flight flag are those of
  \<open>s3\<close>, fixed before anything is evicted.
\<close>

theorem push_keeps_queue_bounded:
  assumes "0 \<le> maxQueueSize cfg" and "Settle False \<notin> set acts"
  shows "(let s = run cfg acts new_Queue;
             s1 = debug_log cfg (EventQueued ev)
                    (s\<lparr>queue := queue s @ [\<lparr>event = ev, attempts = 0, timestamp = now\<rparr>]\<rparr>);
             s3 = (if flushAt cfg \<le> int (length (queue s1)) then flush cfg s1 else s1);
             s' = push cfg ev now s
         in int (queue_size s) \<le> maxQueueSize cfg \<and>
            int (queue_size s') \<le> maxQueueSize cfg \<and>
            queue s' = drop (nat (int (length (queue s3)) - maxQueueSize cfg)) (queue s3) \<and>
            sent s' = sent s3 \<and> inflight s' = inflight s3 \<and> isFlushing s' = isFlushing s3)"
proof -
  define s where "s = run cfg acts new_Queue"
  define s1 where "s1 = debug_log cfg (EventQueued ev)
      (s\<lparr>queue := queue s @ [\<lparr>event = ev, attempts = 0, timestamp = now\<rparr>]\<rparr>)"
  define s3 where "s3 = (if flushAt cfg \<le> int (length (queue s1)) then flush cfg s1 else s1)"
  have before: "int (length (queue s)) \<le> maxQueueSize cfg"
    unfolding s_def using assms by (intro run_bound) (simp_all add: new_Queue_def)
  have after: "int (length (queue (push cfg ev now s))) \<le> maxQueueSize cfg"
    using push_bound[OF assms(1) before] .
  have excess: "int (length (queue s3)) \<le> maxQueueSize cfg + 1"
    using before assms(1) by (auto simp: s3_def s1_def flush_def)
  have unfolded: "push cfg ev now s =
     (if maxQueueSize cfg < int (length (queue s3))
      then debug_log cfg QueueSizeExceeded (s3\<lparr>queue := tl (queue s3)\<rparr>)
      else s3)"
    by (simp add: push_def s3_def s1_def Let_def)
  have evicted: "queue (push cfg ev now s) =
      drop (nat (int (length (queue s3)) - maxQueueSize cfg)) (queue s3)"
  proof (cases "maxQueueSize cfg < int (length (queue s3))")
    case True
    with excess have "int (length (queue s3)) - maxQueueSize cfg = 1" by simp
    then show ?thesis using True unfolded by (simp add: drop_Suc)
  next
    case False
    then show ?thesis using unfolded by simp
  qed
  have batch: "sent (push cfg ev now s) = sent s3 \<and> inflight (push cfg ev now s) = inflight s3
      \<and> isFlushing (push cfg ev now s) = isFlushing s3"
    using unfolded by simp
  show ?thesis
    using before after evicted batch
    unfolding Let_def queue_size_def s_def s1_def s3_def by blast
qed

theorem push_keeps_queue_bounded_witness:
  "0 \<le> maxQueueSize (defaultConfig\<lparr>maxQueueSize := 2\<rparr>) \<and>
   Settle False \<notin> set [Push (createTrackEvent ''a'') 0, Push (createTrackEvent ''b'') 1] \<and>
   map event (queue (push (defaultConfig\<lparr>maxQueueSize := 2\<rparr>) (createTrackEvent ''c'') 2
     (run (defaultConfig\<lparr>maxQueueSize := 2\<rparr>)
        [Push (createTrackEvent ''a'') 0, Push (createTrackEvent ''b'') 1] new_Queue)))
     = [createTrackEvent ''b'', createTrackEvent ''c'']"
  using push_keeps_queue_bounded [of "defaultConfig\<lparr>maxQueueSize := 2\<rparr>"
      "[Push (createTrackEvent ''a'') 0, Push (createTrackEvent ''b'') 1]"
      "createTrackEvent ''c''" 2]
  by (simp add: queue_ops defaultConfig_def)

subsection \<open>One send at a time\<close>

lemma while_flushing:
  assumes "isFlushing s" "\<forall>a\<in>set acts. \<not> is_settle a"
  shows "isFlushing (run cfg acts s) \<and> sent (run cfg acts s) = sent s
     \<and> inflight (run cfg acts s) = inflight s"
  using assms
proof (induction acts arbitrary: s)
  case Nil
  then show ?case by simp
next
  case (Cons a acts)
  have "isFlushing (step cfg a s) \<and> sent (step cfg a s) = sent s
      \<and> inflight (step cfg a s) = inflight s"
    using Cons.prems by (cases a) (auto simp: queue_ops)
  then show ?case using Cons by simp
qed

text \<open>
  C2. \<^verbatim>\<open>flush()\<close> returns the queue object exactly as it found it (no transport call,
  same queue) when a flush is in flight or the queue is empty. When it does start a
  send, whatever is called before that send settles (further \<^verbatim>\<open>flush()\<close> calls, timer
  firings, pushes that reach the threshold, \<^verbatim>\<open>destroy\<close>) adds no transport call: exactly
  one was made, with the snapshot of the queue.
\<close>

theorem flush_is_noop_when_flushing_or_empty:
  "(isFlushing s \<or> queue_size s = 0 \<longrightarrow> flush cfg s = s) \<and>
   (\<not> isFlushing s \<and> queue_size s \<noteq> 0 \<and> (\<forall>a\<in>set acts. \<not> is_settle a) \<longrightarrow>
      sent (run cfg (Flush # acts) s) = sent s @ [map event (queue s)])"
proof (intro conjI impI)
  assume "isFlushing s \<or> queue_size s = 0"
  then show "flush cfg s = s" by (auto simp: flush_def queue_size_def)
next
  assume a: "\<not> isFlushing s \<and> queue_size s \<noteq> 0 \<and> (\<forall>a\<in>set acts. \<not> is_settle a)"
  then have started: "isFlushing (flush cfg s)"
      "sent (flush cfg s) = sent s @ [map event (queue s)]"
    by (simp_all add: flush_def queue_size_def)
  from while_flushing[OF started(1), of acts cfg] a started(2)
  show "sent (run cfg (Flush # acts) s) = sent s @ [map event (queue s)]" by simp
qed

theorem flush_is_noop_when_flushing_or_empty_witness:
  "flush defaultConfig new_Queue = new_Queue \<and>
   sent (flush defaultConfig new_Queue) = [] \<and>
   sent (run defaultConfig [Flush, Flush, TimerFires, Push (createTrackEvent ''late'') 2, Flush]
           twoUnsent)
     = [[createTrackEvent ''Event 0'', createTrackEvent ''Event 1'']]"
  using flush_is_noop_when_flushing_or_empty [of new_Queue defaultConfig "[]"]
    flush_is_noop_when_flushing_or_empty [of twoUnsent defaultConfig
      "[Flush, TimerFires, Push (createTrackEvent ''late'') 2, Flush]"]
  by (simp add: twoUnsent_def queue_ops defaultConfig_def)

subsection \<open>The retry path\<close>

text \<open>
  C3. When the send of \<open>batch\<close> fails, the queue becomes the live queue followed by the
  items of the batch, each with \<^verbatim>\<open>attempts\<close> one higher, in batch order, each once, and
  only those whose new \<^verbatim>\<open>attempts\<close> is below \<^verbatim>\<open>retryAttempts\<close>; the others are gone. When
  the send succeeds the live queue is untouched. In both cases \<^verbatim>\<open>isFlushing\<close> is false
  afterwards.
\<close>

theorem failed_flush_requeues_survivors:
  "inflight s = Some batch \<longrightarrow>
     queue (flush_settled cfg False s) =
       queue s @ filter (\<lambda>i. int (attempts i) < retryAttempts cfg)
                   (map (\<lambda>i. i\<lparr>attempts := attempts i + 1\<rparr>) batch) \<and>
     queue (flush_settled cfg True s) = queue s \<and>
     \<not> isFlushing (flush_settled cfg False s) \<and>
     \<not> isFlushing (flush_settled cfg True s)"
  by (simp add: flush_settled_queue flush_settled_isFlushing)

theorem failed_flush_requeues_survivors_witness:
  "inflight (flush defaultConfig twoUnsent) = Some (queue twoUnsent) \<and>
   queue (flush_settled defaultConfig False (flush defaultConfig twoUnsent)) =
     [\<lparr>event = createTrackEvent ''Event 0'', attempts = 1, timestamp = 0\<rparr>,
      \<lparr>event = createTrackEvent ''Event 1'', attempts = 1, timestamp = 1\<rparr>] \<and>
   \<not> isFlushing (flush_settled defaultConfig False (flush defaultConfig twoUnsent))"
  using failed_flush_requeues_survivors
    [of "flush defaultConfig twoUnsent" "queue twoUnsent" defaultConfig]
  by (simp add: twoUnsent_def queue_ops defaultConfig_def)

text \<open>
  C4, as the claim states it, fails: with the configuration of the test suite
  (\<^verbatim>\<open>retryAttempts = 3\<close>) one push and four awaited failing flushes do not end with four
  transport calls.
\<close>

theorem four_flushes_not_four_transport_calls:
  "\<not> (queue_size (fourFlushes defaultConfig (createTrackEvent ''Drop Event'') 0) = 0 \<and>
      length (sent (fourFlushes defaultConfig (createTrackEvent ''Drop Event'') 0)) = 4)"
  by (simp add: fourFlushes_def queue_ops defaultConfig_def)

text \<open>
  C4, amended. With \<^verbatim>\<open>retryAttempts = 3\<close> (and a flush threshold above 1 and room for
  one item, so that the push itself neither sends nor evicts), after one push and four
  awaited \<^verbatim>\<open>flush()\<close> calls that all fail the queue is empty and the transport was called
  exactly three times, each time with that one event: the third failure drops the item
  and the fourth \<^verbatim>\<open>flush()\<close> finds the queue empty.
\<close>

theorem four_failing_flushes_three_transport_calls:
  assumes "retryAttempts cfg = 3" "1 < flushAt cfg" "1 \<le> maxQueueSize cfg"
  shows "queue_size (fourFlushes cfg ev now) = 0 \<and>
         sent (fourFlushes cfg ev now) = [[ev], [ev], [ev]]"
  using assms by (simp add: fourFlushes_def queue_ops)

theorem four_failing_flushes_three_transport_calls_witness:
  "retryAttempts defaultConfig = 3 \<and> 1 < flushAt defaultConfig \<and>
   1 \<le> maxQueueSize defaultConfig \<and>
   queue_size (fourFlushes defaultConfig (createTrackEvent ''Drop Event'') 0) = 0 \<and>
   length (sent (fourFlushes defaultConfig (createTrackEvent ''Drop Event'') 0)) = 3"
  using four_failing_flushes_three_transport_calls
    [of defaultConfig "createTrackEvent ''Drop Event''" 0]
  by (simp add: defaultConfig_def)

subsection \<open>destroy\<close>

lemma timer_stopped:
  assumes "\<not> flushTimer s" "\<forall>a\<in>set acts. a = TimerFires \<or> is_settle a"
  shows "sent (run cfg acts s) = sent s"
  using assms
proof (induction acts arbitrary: s)
  case Nil
  then show ?case by simp
next
  case (Cons a acts)
  have "\<not> flushTimer (step cfg a s) \<and> sent (step cfg a s) = sent s"
    using Cons.prems by (cases a) (auto simp: timer_fires_def)
  then show ?case using Cons by simp
qed

text \<open>
  C8, as the claim states it, fails: \<^verbatim>\<open>destroy()\<close> does not wait for its final flush.
  On a queue holding two unsent events it returns with the send still in flight
  (\<^verbatim>\<open>isFlushing\<close> set, the batch unsettled); the settlement is a later step that changes
  the object.
\<close>

theorem destroy_returns_before_flush_settles:
  "queue_size twoUnsent = 2 \<and>
   isFlushing (destroy defaultConfig twoUnsent) \<and>
   inflight (destroy defaultConfig twoUnsent) = Some (queue twoUnsent) \<and>
   flush_settled defaultConfig True (destroy defaultConfig twoUnsent)
     \<noteq> destroy defaultConfig twoUnsent"
  by (simp add: twoUnsent_def queue_ops defaultConfig_def)

text \<open>
  C8, amended. \<^verbatim>\<open>destroy()\<close> stops the timer, calls \<^verbatim>\<open>flush()\<close> once without awaiting it
  (one transport call with the whole queue when the queue is non-empty and no flush is
  in flight, none otherwise) and clears the queue: when it returns \<^verbatim>\<open>size()\<close> is 0 and
  the send it started is still in flight. If that send succeeds \<^verbatim>\<open>size()\<close> is still 0.
  Afterwards neither a timer firing nor the settlement of the send, whatever its
  outcome, causes another transport call.
\<close>

theorem destroy_flushes_once_without_waiting:
  "\<not> flushTimer (destroy cfg s) \<and>
   queue_size (destroy cfg s) = 0 \<and>
   sent (destroy cfg s) =
      (if isFlushing s \<or> queue_size s = 0 then sent s else sent s @ [map event (queue s)]) \<and>
   (\<not> isFlushing s \<and> queue_size s \<noteq> 0 \<longrightarrow>
      isFlushing (destroy cfg s) \<and> inflight (destroy cfg s) = Some (queue s)) \<and>
   queue_size (flush_settled cfg True (destroy cfg s)) = 0 \<and>
   ((\<forall>a\<in>set acts. a = TimerFires \<or> is_settle a) \<longrightarrow>
      sent (run cfg acts (destroy cfg s)) = sent (destroy cfg s))"
  using timer_stopped[of "destroy cfg s" acts cfg]
  by (simp add: destroy_fields queue_size_def flush_settled_queue split: option.splits)

theorem destroy_flushes_once_without_waiting_witness:
  "sent (run defaultConfig [TimerFires, Settle True, TimerFires]
           (destroy defaultConfig twoUnsent))
     = [[createTrackEvent ''Event 0'', createTrackEvent ''Event 1'']] \<and>
   queue_size (run defaultConfig [TimerFires, Settle True, TimerFires]
                 (destroy defaultConfig twoUnsent)) = 0"
  using destroy_flushes_once_without_waiting
    [of defaultConfig twoUnsent "[TimerFires, Settle True, TimerFires]"]
  by (simp add: twoUnsent_def queue_ops defaultConfig_def)

subsection \<open>The retry path and the bound\<close>

text \<open>
  C9. The settlement of a failed send appends every surviving item of the batch to
  the live queue and evicts nothing: the length grows by the number of survivors,
  whatever \<^verbatim>\<open>maxQueueSize\<close> is. So there are a configuration with a non-negative
  \<^verbatim>\<open>maxQueueSize\<close> and a run of a fresh queue, without a failed settlement up to its last
  step, whose last step is a failed settlement that leaves more than \<^verbatim>\<open>maxQueueSize\<close>
  items in the queue.
\<close>

theorem failed_flush_can_exceed_maxQueueSize:
  "(inflight s = Some batch \<longrightarrow>
      queue_size (flush_settled cfg False s) =
        queue_size s + length (filter (\<lambda>i. int (attempts i) + 1 < retryAttempts cfg) batch)) \<and>
   (\<exists>c acts. 0 \<le> maxQueueSize c \<and> Settle False \<notin> set acts \<and>
       maxQueueSize c < int (queue_size (run c (acts @ [Settle False]) new_Queue)))"
proof
  show "inflight s = Some batch \<longrightarrow>
      queue_size (flush_settled cfg False s) =
        queue_size s + length (filter (\<lambda>i. int (attempts i) + 1 < retryAttempts cfg) batch)"
    by (simp add: queue_size_def flush_settled_queue filter_map o_def add.commute)
  let ?c = "defaultConfig\<lparr>flushAt := 2, maxQueueSize := 2\<rparr>"
  let ?acts = "[Push (createTrackEvent ''a'') 0, Push (createTrackEvent ''b'') 1,
                Push (createTrackEvent ''c'') 2, Push (createTrackEvent ''d'') 3]"
  have "0 \<le> maxQueueSize ?c \<and> Settle False \<notin> set ?acts \<and>
       maxQueueSize ?c < int (queue_size (run ?c (?acts @ [Settle False]) new_Queue))"
    by (simp add: queue_ops defaultConfig_def)
  then show "\<exists>c acts. 0 \<le> maxQueueSize c \<and> Settle False \<notin> set acts \<and>
       maxQueueSize c < int (queue_size (run c (acts @ [Settle False]) new_Queue))"
    by blast
qed

theorem failed_flush_can_exceed_maxQueueSize_witness:
  "inflight (run (defaultConfig\<lparr>flushAt := 2, maxQueueSize := 2\<rparr>)
       [Push (createTrackEvent ''a'') 0, Push (createTrackEvent ''b'') 1,
        Push (createTrackEvent ''c'') 2, Push (createTrackEvent ''d'') 3] new_Queue)
     = Some [\<lparr>event = createTrackEvent ''a'', attempts = 0, timestamp = 0\<rparr>,
             \<lparr>event = createTrackEvent ''b'', attempts = 0, timestamp = 1\<rparr>] \<and>
   queue_size (flush_settled (defaultConfig\<lparr>flushAt := 2, maxQueueSize := 2\<rparr>) False
     (run (defaultConfig\<lparr>flushAt := 2, maxQueueSize := 2\<rparr>)
       [Push (createTrackEvent ''a'') 0, Push (createTrackEvent ''b'') 1,
        Push (createTrackEvent ''c'') 2, Push (createTrackEvent ''d'') 3] new_Queue)) = 4"
  using failed_flush_can_exceed_maxQueueSize
    [of "run (defaultConfig\<lparr>flushAt := 2, maxQueueSize := 2\<rparr>)
       [Push (createTrackEvent ''a'') 0, Push (createTrackEvent ''b'') 1,
        Push (createTrackEvent ''c'') 2, Push (createTrackEvent ''d'') 3] new_Queue"
      "[\<lparr>event = createTrackEvent ''a'', attempts = 0, timestamp = 0\<rparr>,
        \<lparr>event = createTrackEvent ''b'', attempts = 0, timestamp = 1\<rparr>]"
      "defaultConfig\<lparr>flushAt := 2, maxQueueSize := 2\<rparr>"]
  by (simp add: queue_ops defaultConfig_def)

section \<open>Properties of the plugin pipeline\<close>

subsection \<open>The plugin map and the loading loop\<close>


lemma map_set_member: "(k, v) \<in> set (map_set k v m)"
  by (induction m) auto

lemma map_set_subset: "set (map_set k v m) \<subseteq> insert (k, v) (set m)"
  by (induction m) (auto split: if_splits)




lemma load_loop_resolved:
  assumes "\<forall>q\<in>set (plugins s). load (snd q) = Resolves"
  shows "\<forall>q\<in>set (plugins (load_loop dbg ps s)). load (snd q) = Resolves"
  using assms
proof (induction ps arbitrary: s)
  case Nil
  then show ?case by simp
next
  case (Cons p ps)
  show ?case
  proof (cases "load p")
    case Resolves
    define s1 where "s1 = s\<lparr>plugins := map_set (name p) p (plugins s)\<rparr>"
    define s2 where "s2 = (if dbg then s1\<lparr>load_console := load_console s1 @ [PluginLoaded (name p)]\<rparr> else s1)"
    have "\<forall>q\<in>set (plugins s2). load (snd q) = Resolves"
      using Cons.prems Resolves map_set_subset[of "name p" p "plugins s"]
      by (auto simp: s2_def s1_def)
    then have "\<forall>q\<in>set (plugins (load_loop dbg ps s2)). load (snd q) = Resolves"
      by (rule Cons.IH)
    then show ?thesis using Resolves by (simp add: Let_def s2_def s1_def)
  next
    case (Rejects err)
    define s1 where "s1 = s\<lparr>load_console := load_console s @ [FailedToLoad (name p) err]\<rparr>"
    have "\<forall>q\<in>set (plugins s1). load (snd q) = Resolves"
      using Cons.prems by (simp add: s1_def)
    then have "\<forall>q\<in>set (plugins (load_loop dbg ps s1)). load (snd q) = Resolves"
      by (rule Cons.IH)
    then show ?thesis using Rejects by (simp add: s1_def)
  qed
qed

lemma loadPlugins_resolved:
  "\<forall>q\<in>set (map_values (plugins (loadPlugins config init_Analytics))). load q = Resolves"
  using load_loop_resolved[of init_Analytics]
  by (simp add: loadPlugins_def map_values_def init_Analytics_def)

lemma process_loop_None [simp]: "process_loop ps t None = (None, [])"
  by (cases ps) simp_all

lemma process_loop_append:
  "process_loop (xs @ ys) t cur =
     (let (r1, t1) = process_loop xs t cur; (r2, t2) = process_loop ys t r1
      in (r2, t1 @ t2))"
  by (induction xs arbitrary: cur)
     (auto split: option.splits handler_result.splits prod.splits)

lemma no_veto_result:
  assumes "\<forall>p\<in>set ps. \<forall>h x. handler p t = Some h \<longrightarrow> h x \<noteq> Returns None"
  shows "\<exists>e. fst (process_loop ps t (Some c)) = Some e"
  using assms
proof (induction ps arbitrary: c)
  case Nil
  then show ?case by simp
next
  case (Cons p ps)
  show ?case
  proof (cases "handler p t")
    case None
    then show ?thesis using Cons by simp
  next
    case (Some h)
    show ?thesis
    proof (cases "h c")
      case (Returns r)
      with Cons.prems Some obtain e' where r: "r = Some e'" by (cases r) auto
      obtain e'' where "fst (process_loop ps t (Some e')) = Some e''"
        using Cons.IH[of e'] Cons.prems by auto
      then show ?thesis using Some Returns r by (simp add: split_beta)
    next
      case (Throws err)
      obtain e'' where "fst (process_loop ps t (Some c)) = Some e''"
        using Cons.IH[of c] Cons.prems by auto
      then show ?thesis using Some Throws by (simp add: split_beta)
    qed
  qed
qed


lemma veto_is_last:
  assumes "process_loop ps t cur = (res, tr)" "tr = pre @ Invoked n x (Returns None) # post"
  shows "post = [] \<and> res = None"
  using assms
proof (induction ps arbitrary: cur res tr pre)
  case Nil
  then show ?case by simp
next
  case (Cons p ps)
  show ?case
  proof (cases cur)
    case None
    then show ?thesis using Cons.prems by simp
  next
    case (Some e)
    show ?thesis
    proof (cases "handler p t")
      case None
      then show ?thesis using Cons.IH[of cur res tr pre] Cons.prems Some by simp
    next
      case h: (Some h)
      show ?thesis
      proof (cases "h e")
        case (Returns r)
        obtain res' tr' where rest: "process_loop ps t r = (res', tr')" by force
        then have tr: "tr = Invoked (name p) e (Returns r) # tr'" and res: "res = res'"
          using Cons.prems Some h Returns by simp_all
        show ?thesis
        proof (cases pre)
          case Nil
          then have "r = None" "tr' = post" using tr Cons.prems(2) by simp_all
          then show ?thesis using rest res by simp
        next
          case (Cons a pre')
          then have "tr' = pre' @ Invoked n x (Returns None) # post"
            using tr Cons.prems(2) by simp
          then show ?thesis using Cons.IH[OF rest] res by simp
        qed
      next
        case (Throws err)
        obtain res' tr' where rest: "process_loop ps t cur = (res', tr')" by force
        then have tr: "tr = Invoked (name p) e (Throws err) # PluginError (name p) err # tr'"
          and res: "res = res'"
          using Cons.prems Some h Throws by simp_all
        then obtain pre' where "tr' = pre' @ Invoked n x (Returns None) # post"
          using Cons.prems(2) by (cases pre; cases "tl pre") auto
        then show ?thesis using Cons.IH[OF rest] res by simp
      qed
    qed
  qed
qed

subsection \<open>Stage order\<close>








subsection \<open>Veto, failure isolation and late registration\<close>

lemmas pipeline_ops =
  configWith_def trackPlugin_def enrich_def veto_def failing_def createTrackEvent_def
  loadPlugins_def sortedPlugins_def or_default_def init_Analytics_def processEvent_def
  process_and_push_def track_def register_def map_values_def withPlugins_def Let_def

text \<open>
  C6. If in a run of \<^verbatim>\<open>processEvent\<close> some handler returns \<^verbatim>\<open>null\<close>, that call is the last
  thing the pipeline does (no later handler is called), the result is \<^verbatim>\<open>null\<close>, and the
  facade method does not call \<^verbatim>\<open>queue.push\<close>: the list of pushed events and the queue
  object are as before. This holds for the common tail of all six facade methods, and
  for \<^verbatim>\<open>track\<close> in particular.
\<close>

theorem veto_stops_pipeline_and_push:
  assumes "processEvent s ev = (res, tr)"
    and "tr = pre @ Invoked n x (Returns None) # post"
  shows "post = [] \<and> res = None \<and>
         pushed (process_and_push config ev now s) = pushed s \<and>
         equeue (process_and_push config ev now s) = equeue s \<and>
         (\<forall>base. ev = base\<lparr>etype := Track\<rparr> \<longrightarrow>
            pushed (track config base now s) = pushed s \<and>
            equeue (track config base now s) = equeue s)"
proof -
  have last: "post = [] \<and> res = None"
    using assms unfolding processEvent_def by (rule veto_is_last)
  then have "pushed (process_and_push config ev now s) = pushed s \<and>
         equeue (process_and_push config ev now s) = equeue s"
    using assms(1) by (simp add: process_and_push_def)
  then show ?thesis using last unfolding track_def by blast
qed

theorem veto_stops_pipeline_and_push_witness:
  "processEvent
     (withPlugins [trackPlugin ''device'' Enrichment Resolves (enrich ''device''),
                   trackPlugin ''filter'' Before Resolves veto,
                   trackPlugin ''logger'' After Resolves (enrich ''logged'')])
     (createTrackEvent ''Test Event'')
     = (None, [] @ Invoked ''filter'' (createTrackEvent ''Test Event'') (Returns None) # []) \<and>
   pushed (track (configWith []) (createTrackEvent ''Test Event'') 0
     (withPlugins [trackPlugin ''device'' Enrichment Resolves (enrich ''device''),
                   trackPlugin ''filter'' Before Resolves veto,
                   trackPlugin ''logger'' After Resolves (enrich ''logged'')])) = [] \<and>
   queue_size (equeue (track (configWith []) (createTrackEvent ''Test Event'') 0
     (withPlugins [trackPlugin ''device'' Enrichment Resolves (enrich ''device''),
                   trackPlugin ''filter'' Before Resolves veto,
                   trackPlugin ''logger'' After Resolves (enrich ''logged'')]))) = 0"
  using veto_stops_pipeline_and_push [of "withPlugins [trackPlugin ''device'' Enrichment Resolves (enrich ''device''),
                   trackPlugin ''filter'' Before Resolves veto,
                   trackPlugin ''logger'' After Resolves (enrich ''logged'')]"
      "createTrackEvent ''Test Event''" None
      "[] @ Invoked ''filter'' (createTrackEvent ''Test Event'') (Returns None) # []"
      "[]" "''filter''" "createTrackEvent ''Test Event''" "[]" "configWith []" 0]
  by (simp add: pipeline_ops new_Queue_def queue_size_def)

text \<open>
  C7. Let the active plugins be \<open>pre\<close>, then \<open>p\<close>, then \<open>post\<close>; let the plugins of
  \<open>pre\<close> turn the event into \<open>cur\<close>, and let the handler of \<open>p\<close> throw on \<open>cur\<close>. Then
  the pipeline records the call and one \<^verbatim>\<open>console.error\<close> line for \<open>p\<close> and goes on with
  \<open>post\<close> on the same \<open>cur\<close>; its result is the result of the pipeline without \<open>p\<close>.
  Nothing is thrown to the caller (the facade method returns a state in every case),
  and unless a plugin of \<open>post\<close> returns \<^verbatim>\<open>null\<close> the event is pushed to the queue.
\<close>

theorem handler_failure_is_isolated:
  assumes "map_values (plugins s) = pre @ p # post"
    and "process_loop pre (etype ev) (Some ev) = (Some cur, tr1)"
    and "handler p (etype ev) = Some h"
    and "h cur = Throws err"
  shows "processEvent s ev =
           (fst (process_loop post (etype ev) (Some cur)),
            tr1 @ [Invoked (name p) cur (Throws err), PluginError (name p) err]
                @ snd (process_loop post (etype ev) (Some cur))) \<and>
         fst (processEvent s ev) = fst (process_loop (pre @ post) (etype ev) (Some ev)) \<and>
         ((\<forall>q\<in>set post. \<forall>g x. handler q (etype ev) = Some g \<longrightarrow> g x \<noteq> Returns None) \<longrightarrow>
            (\<exists>e. fst (processEvent s ev) = Some e \<and>
                 pushed (process_and_push config ev now s) = pushed s @ [e]))"
proof -
  have one: "process_loop (p # post) (etype ev) (Some cur) =
      (fst (process_loop post (etype ev) (Some cur)),
       [Invoked (name p) cur (Throws err), PluginError (name p) err]
         @ snd (process_loop post (etype ev) (Some cur)))"
    using assms(3,4) by (simp add: split_beta)
  have whole: "processEvent s ev =
           (fst (process_loop post (etype ev) (Some cur)),
            tr1 @ [Invoked (name p) cur (Throws err), PluginError (name p) err]
                @ snd (process_loop post (etype ev) (Some cur)))"
    unfolding processEvent_def assms(1) process_loop_append
    using assms(2) one by simp
  have without: "fst (process_loop (pre @ post) (etype ev) (Some ev))
      = fst (process_loop post (etype ev) (Some cur))"
    unfolding process_loop_append using assms(2) by (simp add: split_beta)
  have kept: "\<exists>e. fst (processEvent s ev) = Some e \<and>
                 pushed (process_and_push config ev now s) = pushed s @ [e]"
    if "\<forall>q\<in>set post. \<forall>g x. handler q (etype ev) = Some g \<longrightarrow> g x \<noteq> Returns None"
  proof -
    from that obtain e where "fst (process_loop post (etype ev) (Some cur)) = Some e"
      using no_veto_result[of post "etype ev" cur] by blast
    then have "fst (processEvent s ev) = Some e" using whole by simp
    then show ?thesis by (auto simp: process_and_push_def split_beta)
  qed
  show ?thesis using whole without kept by simp
qed

theorem handler_failure_is_isolated_witness:
  "processEvent
     (withPlugins [trackPlugin ''device'' Enrichment Resolves (enrich ''device''),
                   trackPlugin ''broken'' Destination Resolves failing,
                   trackPlugin ''logger'' After Resolves (enrich ''logged'')])
     (createTrackEvent ''Test Event'')
   = (Some ((createTrackEvent ''Test Event'')
        \<lparr>payload := [(''event'', ''Test Event''), (''device'', ''true''), (''logged'', ''true'')]\<rparr>),
      [Invoked ''device'' (createTrackEvent ''Test Event'')
         (enrich ''device'' (createTrackEvent ''Test Event'')),
       Invoked ''broken''
         ((createTrackEvent ''Test Event'')
           \<lparr>payload := [(''event'', ''Test Event''), (''device'', ''true'')]\<rparr>)
         (Throws ''Plugin failure''),
       PluginError ''broken'' ''Plugin failure'',
       Invoked ''logger''
         ((createTrackEvent ''Test Event'')
           \<lparr>payload := [(''event'', ''Test Event''), (''device'', ''true'')]\<rparr>)
         (enrich ''logged'' ((createTrackEvent ''Test Event'')
           \<lparr>payload := [(''event'', ''Test Event''), (''device'', ''true'')]\<rparr>))])"
  using handler_failure_is_isolated [of "withPlugins [trackPlugin ''device'' Enrichment Resolves (enrich ''device''),
                   trackPlugin ''broken'' Destination Resolves failing,
                   trackPlugin ''logger'' After Resolves (enrich ''logged'')]"
      "[trackPlugin ''device'' Enrichment Resolves (enrich ''device'')]"
      "trackPlugin ''broken'' Destination Resolves failing"
      "[trackPlugin ''logger'' After Resolves (enrich ''logged'')]"
      "createTrackEvent ''Test Event''"
      "(createTrackEvent ''Test Event'')
           \<lparr>payload := [(''event'', ''Test Event''), (''device'', ''true'')]\<rparr>"
      "[Invoked ''device'' (createTrackEvent ''Test Event'')
         (enrich ''device'' (createTrackEvent ''Test Event''))]"
      failing "''Plugin failure''" "configWith []" 0]
  by (simp add: pipeline_ops)

text \<open>
  C10. \<^verbatim>\<open>register(plugin)\<close> puts the plugin into the map at once and leaves the promise
  of its \<^verbatim>\<open>load()\<close> unattended, whatever that promise does: the plugin is in the active
  set when \<^verbatim>\<open>register\<close> returns, and an event processed right then (on an instance
  without other plugins) goes through its handler. This holds also for a plugin whose
  \<^verbatim>\<open>load()\<close> rejects, which \<^verbatim>\<open>loadPlugins\<close>, for any configuration, never puts into the
  active set.
\<close>

theorem register_skips_load_outcome:
  "(name p, p) \<in> set (plugins (register p s)) \<and>
   floating (register p s) = floating s @ [name p] \<and>
   (plugins s = [] \<and> handler p (etype ev) = Some h \<longrightarrow>
      snd (processEvent (register p s) ev) = [Invoked (name p) ev (h ev)]
        @ (case h ev of Returns r \<Rightarrow> [] | Throws err \<Rightarrow> [PluginError (name p) err])) \<and>
   (load p = Rejects err \<longrightarrow>
      p \<notin> set (map_values (plugins (loadPlugins config init_Analytics))))"
proof (intro conjI impI)
  show "(name p, p) \<in> set (plugins (register p s))"
    by (simp add: register_def map_set_member)
  show "floating (register p s) = floating s @ [name p]"
    by (simp add: register_def)
  show "snd (processEvent (register p s) ev) = [Invoked (name p) ev (h ev)]
        @ (case h ev of Returns r \<Rightarrow> [] | Throws err \<Rightarrow> [PluginError (name p) err])"
    if "plugins s = [] \<and> handler p (etype ev) = Some h"
    using that
    by (simp add: register_def processEvent_def map_values_def split: handler_result.splits)
  show "p \<notin> set (map_values (plugins (loadPlugins config init_Analytics)))"
    if "load p = Rejects err"
    using that loadPlugins_resolved[of config] by auto
qed

theorem register_skips_load_outcome_witness:
  "load (trackPlugin ''late'' Before (Rejects ''load failed'') (enrich ''late'')) = Rejects ''load failed'' \<and>
   map fst (plugins (register (trackPlugin ''late'' Before (Rejects ''load failed'') (enrich ''late''))
      init_Analytics)) = [''late''] \<and>
   invoked (snd (processEvent
      (register (trackPlugin ''late'' Before (Rejects ''load failed'') (enrich ''late'')) init_Analytics)
      (createTrackEvent ''Test Event''))) = [''late''] \<and>
   plugins (withPlugins [trackPlugin ''late'' Before (Rejects ''load failed'') (enrich ''late'')]) = []"
  using register_skips_load_outcome [of "trackPlugin ''late'' Before (Rejects ''load failed'') (enrich ''late'')"
      init_Analytics "createTrackEvent ''Test Event''" "enrich ''late''" "''load failed''"
      "configWith [trackPlugin ''late'' Before (Rejects ''load failed'') (enrich ''late'')]"]
  by (simp add: pipeline_ops)

end
